theory Spec2Isabelle
  imports Main "HOL-Library.Sublist" "HOL-Library.AList"
begin

section \<open>Strings\<close>

text \<open>
  A JavaScript string is a sequence of UTF-16 code units. The model writes a string as a
  \<^typ>\<open>string\<close> whose characters are the code units \<open>0x00\<close> to \<open>0xFF\<close>; text with code units
  above \<open>0xFF\<close> is outside the model. The glyphs the program prints that lie above
  \<open>0xFF\<close> (bullet, box-drawing characters, icons) are fields of the theme record below.
\<close>

text \<open>The characters removed by \<open>trim()\<close> and matched by \<open>\s\<close>, below \<open>0x100\<close>.\<close>

definition is_space :: "char \<Rightarrow> bool" where
  "is_space c = (c \<in> set [CHR 0x09, CHR 0x0A, CHR 0x0B, CHR 0x0C, CHR 0x0D, CHR 0x20, CHR 0xA0])"

definition trim :: "string \<Rightarrow> string" where
  "trim s = rev (dropWhile is_space (rev (dropWhile is_space s)))"

text \<open>\<open>toLowerCase()\<close>: the letters A-Z and the upper-case letters of \<open>0xC0\<close> to \<open>0xDE\<close>
  (the multiplication sign \<open>0xD7\<close> is not a letter) move up by \<open>0x20\<close>.\<close>

definition lower_char :: "char \<Rightarrow> char" where
  "lower_char c = (let n = (of_char c :: nat) in
     if (65 \<le> n \<and> n \<le> 90) \<or> (192 \<le> n \<and> n \<le> 222 \<and> n \<noteq> 215)
     then char_of (n + 32) else c)"

definition toLowerCase :: "string \<Rightarrow> string" where
  "toLowerCase s = map lower_char s"

text \<open>\<open>hay.includes(needle)\<close>: a scan over the start positions.\<close>

fun js_includes :: "string \<Rightarrow> string \<Rightarrow> bool" where
  "js_includes [] needle = (needle = [])"
| "js_includes (c # cs) needle = (prefix needle (c # cs) \<or> js_includes cs needle)"

text \<open>\<open>s.split(sep)\<close> for a non-empty string separator: the pieces between the leftmost,
  non-overlapping occurrences of \<open>sep\<close>. The program splits on \<open>"\n\n"\<close>, \<open>"\n"\<close> and
  \<open>"|"\<close> only.\<close>

function split_on :: "string \<Rightarrow> string \<Rightarrow> string list" where
  "split_on sep [] = [[]]"
| "split_on sep (c # cs) =
     (if sep \<noteq> [] \<and> prefix sep (c # cs)
      then [] # split_on sep (drop (length sep) (c # cs))
      else (case split_on sep cs of
              [] \<Rightarrow> [[c]]
            | p # ps \<Rightarrow> (c # p) # ps))"
  by pat_completeness auto
termination
  by (relation "measure (\<lambda>(sep, s). length s)") (auto simp: Suc_diff_le)

text \<open>\<open>xs.join(sep)\<close>.\<close>

fun join :: "string \<Rightarrow> string list \<Rightarrow> string" where
  "join sep [] = []"
| "join sep [x] = x"
| "join sep (x # y # ys) = x @ sep @ join sep (y # ys)"

text \<open>\<open>s.split(/\s+/)\<close>: the pieces between the maximal runs of white space; a leading or
  trailing run leaves an empty piece.\<close>

function split_ws :: "string \<Rightarrow> string list" where
  "split_ws s =
     (let tok = takeWhile (\<lambda>c. \<not> is_space c) s;
          rest = dropWhile (\<lambda>c. \<not> is_space c) s
      in if rest = [] then [tok] else tok # split_ws (dropWhile is_space rest))"
  by pat_completeness auto
termination
proof (relation "measure length")
  fix s tok rest
  assume r: "rest = dropWhile (\<lambda>c. \<not> is_space c) s" and ne: "rest \<noteq> []"
  have "length (dropWhile is_space rest) < length rest"
  proof (cases rest)
    case Nil
    with ne show ?thesis by simp
  next
    case (Cons c cs)
    with r have "is_space c"
      by (metis hd_dropWhile list.sel(1) ne)
    with Cons have "length (dropWhile is_space rest) \<le> length cs"
      by (simp add: length_dropWhile_le)
    with Cons show ?thesis by simp
  qed
  moreover have "length rest \<le> length s"
    unfolding r by (rule length_dropWhile_le)
  ultimately show "(dropWhile is_space rest, s) \<in> measure length"
    by simp
qed simp

declare split_ws.simps [simp del]

text \<open>\<open>xs.slice(start, end)\<close> and \<open>xs.slice(start)\<close>: a negative index counts from the
  end, and both indices are clamped to the list.\<close>

definition js_slice :: "int \<Rightarrow> int \<Rightarrow> 'a list \<Rightarrow> 'a list" where
  "js_slice start fin xs =
     (let len = int (length xs);
          k = (if start < 0 then max (len + start) 0 else min start len);
          e = (if fin < 0 then max (len + fin) 0 else min fin len)
      in take (nat (e - k)) (drop (nat k) xs))"

definition js_slice_from :: "int \<Rightarrow> 'a list \<Rightarrow> 'a list" where
  "js_slice_from start xs = js_slice start (int (length xs)) xs"

text \<open>\<open>xs.sort(cmp)\<close>: the sort is stable; \<open>cmp a b > 0\<close> puts \<open>a\<close> after \<open>b\<close>. An element
  is placed in front of the first later element it does not have to follow.\<close>

fun js_insert :: "('a \<Rightarrow> 'a \<Rightarrow> int) \<Rightarrow> 'a \<Rightarrow> 'a list \<Rightarrow> 'a list" where
  "js_insert cmp x [] = [x]"
| "js_insert cmp x (y # ys) = (if cmp x y \<le> 0 then x # y # ys else y # js_insert cmp x ys)"

fun js_sort :: "('a \<Rightarrow> 'a \<Rightarrow> int) \<Rightarrow> 'a list \<Rightarrow> 'a list" where
  "js_sort cmp [] = []"
| "js_sort cmp (x # xs) = js_insert cmp x (js_sort cmp xs)"

text \<open>\<open>s.replace(pat, rep)\<close> with a string pattern: the first occurrence only. The one
  call of the program passes the empty replacement, which holds no \<open>$\<close> pattern.\<close>

fun replace_first :: "string \<Rightarrow> string \<Rightarrow> string \<Rightarrow> string" where
  "replace_first pat rep [] = (if pat = [] then rep else [])"
| "replace_first pat rep (c # cs) =
     (if prefix pat (c # cs) then rep @ drop (length pat) (c # cs)
      else c # replace_first pat rep cs)"


section \<open>Session store\<close>

record message =
  role :: string
  content :: string
  timestamp :: string

record metadata =
  model :: string
  totalTurns :: nat

record session =
  sid :: string
  name :: string
  createdAt :: string
  messages :: "message list"
  metadata :: metadata

text \<open>The \<open>SessionManager\<close> object.\<close>

record manager =
  currentSession :: "session option"
  sessions :: "string list"

text \<open>
  The sessions directory: whether it can be read and written, and its entries, a file
  name (without separator) with the file's content.
\<close>

record fsys =
  dir_ok :: bool
  files :: "(string \<times> string) list"

datatype js_error = ENOENT | SyntaxError

text \<open>
  \<open>path.join(SESSIONS_DIR, p)\<close>, with \<open>/\<close> as the separator: the segments of \<open>p\<close> are
  resolved as text, empty segments and \<open>.\<close> dropped and \<open>..\<close> taking back the segment
  before it. \<open>entry_of p\<close> is the entry of the sessions directory that the path names, if
  it names one. The program creates the configuration directory and the sessions
  directory and no other, so a path into a subdirectory finds no directory there and the
  file operations fail on it with \<open>ENOENT\<close>. A path that climbs above the sessions
  directory leaves what the model holds; the operations of the model fail on it too.
\<close>

fun resolve_segments :: "string list \<Rightarrow> string list \<Rightarrow> string list option" where
  "resolve_segments [] stack = Some (rev stack)"
| "resolve_segments (seg # segs) stack =
     (if seg = [] \<or> seg = ''.'' then resolve_segments segs stack
      else if seg = ''..'' then
        (case stack of [] \<Rightarrow> None | x # rest \<Rightarrow> resolve_segments segs rest)
      else resolve_segments segs (seg # stack))"

definition entry_of :: "string \<Rightarrow> string option" where
  "entry_of p =
     (case resolve_segments (split_on ''/'' p) [] of
        Some [f] \<Rightarrow> Some f
      | _ \<Rightarrow> None)"

definition readdir :: "fsys \<Rightarrow> js_error + string list" where
  "readdir fs = (if dir_ok fs then Inr (map fst (files fs)) else Inl ENOENT)"

text \<open>\<open>fs.readFile\<close>, \<open>fs.writeFile\<close> and \<open>fs.unlink\<close> of \<open>path.join(SESSIONS_DIR, p)\<close>.\<close>

definition readFile :: "fsys \<Rightarrow> string \<Rightarrow> js_error + string" where
  "readFile fs p =
     (if dir_ok fs
      then (case entry_of p of
              None \<Rightarrow> Inl ENOENT
            | Some f \<Rightarrow> (case map_of (files fs) f of None \<Rightarrow> Inl ENOENT | Some d \<Rightarrow> Inr d))
      else Inl ENOENT)"

definition writeFile :: "fsys \<Rightarrow> string \<Rightarrow> string \<Rightarrow> js_error + fsys" where
  "writeFile fs p d =
     (if dir_ok fs
      then (case entry_of p of
              None \<Rightarrow> Inl ENOENT
            | Some f \<Rightarrow> Inr (fs\<lparr>files := AList.update f d (files fs)\<rparr>))
      else Inl ENOENT)"

definition unlink :: "fsys \<Rightarrow> string \<Rightarrow> js_error + fsys" where
  "unlink fs p =
     (if dir_ok fs
      then (case entry_of p of
              None \<Rightarrow> Inl ENOENT
            | Some f \<Rightarrow>
                if f \<in> fst ` set (files fs)
                then Inr (fs\<lparr>files := AList.delete f (files fs)\<rparr>) else Inl ENOENT)
      else Inl ENOENT)"

text \<open>
  The platform functions the store calls: \<open>JSON.stringify\<close>, \<open>JSON.parse\<close> (which throws
  a \<open>SyntaxError\<close> on malformed text, and returns \<open>null\<close> for the text \<open>null\<close>) and
  \<open>localeCompare\<close>.
\<close>

record platform =
  stringify :: "session \<Rightarrow> string"
  parse :: "string \<Rightarrow> js_error + session option"
  localeCompare :: "string \<Rightarrow> string \<Rightarrow> int"

definition MAX_HISTORY_TURNS :: int where
  "MAX_HISTORY_TURNS = 10"

definition session_file :: "string \<Rightarrow> string" where
  "session_file i = i @ ''.json''"

text \<open>A function that can throw returns \<open>Inl\<close> the error; \<open>try ... catch\<close> is the case
  distinction on the result.\<close>

definition loadSessionsList :: "platform \<Rightarrow> manager \<Rightarrow> fsys \<Rightarrow> js_error + manager" where
  "loadSessionsList env m fs =
     (case readdir fs of
        Inr fnames \<Rightarrow>
          Inr (m\<lparr>sessions :=
                 js_sort (\<lambda>a b. localeCompare env b a)
                   (map (replace_first ''.json'' '''') (filter (suffix ''.json'') fnames))\<rparr>)
      | Inl e \<Rightarrow> Inr (m\<lparr>sessions := []\<rparr>))"

definition loadSession ::
  "platform \<Rightarrow> manager \<Rightarrow> fsys \<Rightarrow> string \<Rightarrow> js_error + manager \<times> session option" where
  "loadSession env m fs i =
     (case readFile fs (session_file i) of
        Inl e \<Rightarrow> Inr (m, None)
      | Inr d \<Rightarrow>
          (case parse env d of
             Inl e \<Rightarrow> Inr (m, None)
           | Inr v \<Rightarrow> Inr (m\<lparr>currentSession := v\<rparr>, v)))"

definition saveSession :: "platform \<Rightarrow> manager \<Rightarrow> fsys \<Rightarrow> js_error + fsys" where
  "saveSession env m fs =
     (case currentSession m of
        None \<Rightarrow> Inr fs
      | Some s \<Rightarrow> writeFile fs (session_file (sid s)) (stringify env s))"

definition deleteSession ::
  "platform \<Rightarrow> manager \<Rightarrow> fsys \<Rightarrow> string \<Rightarrow> js_error + manager \<times> fsys \<times> bool" where
  "deleteSession env m fs i =
     (case unlink fs (session_file i) of
        Inl e \<Rightarrow> Inr (m, fs, False)
      | Inr fs' \<Rightarrow>
          (case loadSessionsList env m fs' of
             Inl e \<Rightarrow> Inr (m, fs', False)
           | Inr m' \<Rightarrow> Inr (m', fs', True)))"

text \<open>\<open>addMessage(role, content)\<close>; \<open>now\<close> is the clock's \<open>toISOString()\<close>. The save is
  not awaited: a failed write leaves the directory as it was and the caller never sees
  the error.\<close>

definition addMessage ::
  "platform \<Rightarrow> string \<Rightarrow> manager \<Rightarrow> fsys \<Rightarrow> string \<Rightarrow> string \<Rightarrow> manager \<times> fsys" where
  "addMessage env now m fs r c =
     (case currentSession m of
        None \<Rightarrow> (m, fs)
      | Some s \<Rightarrow>
          (let pushed = messages s @ [\<lparr>role = r, content = c, timestamp = now\<rparr>];
               turns = length (filter (\<lambda>x. role x = ''user'') pushed);
               kept = (if int (length pushed) > MAX_HISTORY_TURNS * 2
                       then js_slice_from (- MAX_HISTORY_TURNS * 2) pushed else pushed);
               m' = m\<lparr>currentSession :=
                        Some (s\<lparr>messages := kept,
                                metadata := (metadata s)\<lparr>totalTurns := turns\<rparr>\<rparr>)\<rparr>
           in (m', (case saveSession env m' fs of Inl e \<Rightarrow> fs | Inr fs' \<Rightarrow> fs'))))"

text \<open>A run of \<open>addMessage\<close> calls, each with its clock reading, role and content.\<close>

fun addMessages ::
  "platform \<Rightarrow> manager \<Rightarrow> fsys \<Rightarrow> (string \<times> string \<times> string) list \<Rightarrow> manager \<times> fsys" where
  "addMessages env m fs [] = (m, fs)"
| "addMessages env m fs ((now, r, c) # rest) =
     (case addMessage env now m fs r c of (m', fs') \<Rightarrow> addMessages env m' fs' rest)"

definition stamped :: "string \<times> string \<times> string \<Rightarrow> message" where
  "stamped x = (case x of (now, r, c) \<Rightarrow> \<lparr>role = r, content = c, timestamp = now\<rparr>)"

text \<open>The \<open>n\<close> most recent entries of a history, oldest first.\<close>

definition newest :: "nat \<Rightarrow> 'a list \<Rightarrow> 'a list" where
  "newest n xs = drop (length xs - n) xs"

subsection \<open>A concrete store\<close>

text \<open>A comparison by code units, a codec that knows one session, and a directory with
  that session's file and a malformed file.\<close>

fun compare_units :: "string \<Rightarrow> string \<Rightarrow> int" where
  "compare_units [] [] = 0"
| "compare_units [] (y # ys) = - 1"
| "compare_units (x # xs) [] = 1"
| "compare_units (x # xs) (y # ys) =
     (if (of_char x :: nat) < of_char y then - 1
      else if (of_char y :: nat) < of_char x then 1 else compare_units xs ys)"

definition example_session :: session where
  "example_session =
     \<lparr>sid = ''taxes'', name = ''taxes'', createdAt = ''2025-01-01T00:00:00.000Z'',
      messages = [], metadata = \<lparr>model = ''m'', totalTurns = 0\<rparr>\<rparr>"

definition example_platform :: platform where
  "example_platform =
     \<lparr>stringify = (\<lambda>s. if s = example_session then ''{taxes}'' else ''{}''),
      parse = (\<lambda>d. if d = ''{taxes}'' then Inr (Some example_session)
                    else if d = ''null'' then Inr None else Inl SyntaxError),
      localeCompare = compare_units\<rparr>"

definition example_manager :: manager where
  "example_manager = \<lparr>currentSession = Some example_session, sessions = []\<rparr>"

definition example_dir :: fsys where
  "example_dir = \<lparr>dir_ok = True, files = [(''taxes.json'', ''{taxes}''), (''old.json'', ''{'')]\<rparr>"





definition example_calls :: "(string \<times> string \<times> string) list" where
  "example_calls =
     concat (replicate 25 [(''t1'', ''user'', ''question''), (''t2'', ''assistant'', ''answer'')])"

text \<open>A directory with the files of the two sessions \<open>a.jsonb\<close> and \<open>ab.json\<close>.\<close>

definition clashing_dir :: fsys where
  "clashing_dir =
     \<lparr>dir_ok = True, files = [(''a.jsonb.json'', ''{}''), (''ab.json.json'', ''{}'')]\<rparr>"

section \<open>Retriever\<close>

text \<open>The items \<open>{ chunk, score, idx }\<close> that \<open>findRelevantChunks\<close> sorts.\<close>

record scored =
  chunk :: string
  score :: int
  idx :: nat

text \<open>The body of the \<open>map\<close> callback: the score of one chunk, from the lower-cased query
  and its keywords.\<close>

definition score_chunk :: "string \<Rightarrow> string list \<Rightarrow> string \<Rightarrow> int" where
  "score_chunk queryLower keywords c =
     (let chunkLower = toLowerCase c;
          s1 = (if js_includes chunkLower queryLower then 0 + 10 else 0);
          s2 = foldl (\<lambda>s kw. if js_includes chunkLower kw then s + 2 else s) s1 keywords
      in if js_includes c ''Table'' \<or> js_includes c ''$'' then s2 + 1 else s2)"

text \<open>\<open>findRelevantChunks(query, maxChunks)\<close> over \<open>this.chunks\<close>.\<close>

definition findRelevantChunks :: "string list \<Rightarrow> string \<Rightarrow> int \<Rightarrow> string list" where
  "findRelevantChunks chunks query maxChunks =
     (let queryLower = toLowerCase query;
          keywords = filter (\<lambda>w. length w > 3) (split_ws queryLower);
          scored = map (\<lambda>(i, c). \<lparr>chunk = c, score = score_chunk queryLower keywords c, idx = i\<rparr>)
                     (enumerate 0 chunks)
      in map chunk (js_slice 0 maxChunks (js_sort (\<lambda>a b. score b - score a) scored)))"

text \<open>The score \<open>findRelevantChunks\<close> gives a chunk for a query.\<close>

definition relevance :: "string \<Rightarrow> string \<Rightarrow> int" where
  "relevance query c =
     score_chunk (toLowerCase query)
       (filter (\<lambda>w. length w > 3) (split_ws (toLowerCase query))) c"

definition scored_chunks :: "string \<Rightarrow> string list \<Rightarrow> scored list" where
  "scored_chunks query chunks =
     map (\<lambda>(i, c). \<lparr>chunk = c, score = relevance query c, idx = i\<rparr>) (enumerate 0 chunks)"

text \<open>The score as the specification words it: every test, the bonus for \<open>Table\<close> and
  \<open>$\<close> too, compares lower-cased text.\<close>

definition claimed_score :: "string \<Rightarrow> string \<Rightarrow> int" where
  "claimed_score query c =
     (if sublist (toLowerCase query) (toLowerCase c) then 10 else 0)
     + 2 * int (length (filter (\<lambda>w. sublist (toLowerCase w) (toLowerCase c))
                          (filter (\<lambda>w. length w > 3) (split_ws query))))
     + (if sublist (toLowerCase ''Table'') (toLowerCase c)
          \<or> sublist (toLowerCase ''$'') (toLowerCase c) then 1 else 0)"

definition example_chunks :: "string list" where
  "example_chunks = [''aaaa'', ''bbbb Table'', ''cccc'', ''dddd bbbb'', ''$'']"


section \<open>Chunker\<close>

text \<open>One round of the loop of \<open>createChunks\<close> over the paragraphs: the state is the
  chunks pushed so far and \<open>currentChunk\<close>.\<close>

definition chunk_step :: "int \<Rightarrow> string list \<times> string \<Rightarrow> string \<Rightarrow> string list \<times> string" where
  "chunk_step chunkSize st para =
     (case st of (chunks, currentChunk) \<Rightarrow>
        if int (length currentChunk) + int (length para) > chunkSize \<and> length currentChunk > 0
        then (chunks @ [trim currentChunk], para)
        else (chunks, currentChunk @ ''\<newline>\<newline>'' @ para))"

definition createChunks :: "string \<Rightarrow> int \<Rightarrow> string list" where
  "createChunks text chunkSize =
     (case foldl (chunk_step chunkSize) ([], []) (split_on ''\<newline>\<newline>'' text) of
        (chunks, currentChunk) \<Rightarrow>
          if trim currentChunk \<noteq> [] then chunks @ [trim currentChunk] else chunks)"

text \<open>\<open>spaced t cs\<close>: the text \<open>t\<close> is the chunks \<open>cs\<close> in their order, with nothing but
  white space before, between and after them.\<close>

inductive spaced :: "string \<Rightarrow> string list \<Rightarrow> bool" where
  gap: "list_all is_space g \<Longrightarrow> spaced g []"
| piece: "list_all is_space g \<Longrightarrow> spaced t cs \<Longrightarrow> spaced (g @ c @ t) (c # cs)"

text \<open>A chunk is within the size \<open>n\<close> up to the two characters of one separator, or it is
  one trimmed paragraph longer than \<open>n\<close>.\<close>

definition within :: "int \<Rightarrow> string list \<Rightarrow> string \<Rightarrow> bool" where
  "within n paras c =
     (int (length c) \<le> n + 2 \<or> (\<exists>p\<in>set paras. int (length p) > n \<and> c = trim p))"

definition example_text :: string where
  "example_text = '' a \<newline>\<newline>\<newline> b\<newline>\<newline>\<newline>\<newline>c d''"


section \<open>Formatter\<close>

text \<open>The styles of \<open>chalk\<close> and of the colour scheme \<open>C\<close>, each a function on strings, and
  the glyphs above \<open>0xFF\<close> that the program prints: the bullet, the agent icon and the
  box-drawing characters.\<close>

record theme =
  highlight :: "string \<Rightarrow> string"
  dim :: "string \<Rightarrow> string"
  agent :: "string \<Rightarrow> string"
  agentLabel :: "string \<Rightarrow> string"
  bold :: "string \<Rightarrow> string"
  italic :: "string \<Rightarrow> string"
  bold_underline :: "string \<Rightarrow> string"
  glyph_bullet :: string
  glyph_agent :: string
  box_h :: string
  box_v :: string
  box_down :: string
  box_cross :: string
  box_up :: string

text \<open>\<open>\d\<close>, the value of a digit, and the line terminators that \<open>.\<close> does not match.\<close>

definition is_digit :: "char \<Rightarrow> bool" where
  "is_digit c = (let n = (of_char c :: nat) in 48 \<le> n \<and> n \<le> 57)"

definition digit_val :: "char \<Rightarrow> nat" where
  "digit_val c = of_char c - 48"

definition is_line_term :: "char \<Rightarrow> bool" where
  "is_line_term c = (c = CHR 0x0A \<or> c = CHR 0x0D)"

text \<open>The expansion of a replacement string (\<open>GetSubstitution\<close>) for the match \<open>m\<close>, the
  text before it, the text after it and the captured groups: \<open>$$\<close>, \<open>$&\<close>, \<open>$`\<close>, \<open>$'\<close>,
  and \<open>$n\<close>, \<open>$nn\<close> where two digits are read if they name a group.\<close>

fun js_subst :: "string \<Rightarrow> string \<Rightarrow> string \<Rightarrow> string list \<Rightarrow> string \<Rightarrow> string" where
  "js_subst m pre post caps [] = []"
| "js_subst m pre post caps [c] = [c]"
| "js_subst m pre post caps (c # d # r) =
     (if c \<noteq> CHR ''$'' then c # js_subst m pre post caps (d # r)
      else if d = CHR ''$'' then CHR ''$'' # js_subst m pre post caps r
      else if d = CHR ''&'' then m @ js_subst m pre post caps r
      else if d = CHR 0x60 then pre @ js_subst m pre post caps r
      else if d = CHR 0x27 then post @ js_subst m pre post caps r
      else if is_digit d then
        (case r of
           e # r' \<Rightarrow>
             if is_digit e \<and> 10 * digit_val d + digit_val e \<le> length caps
             then (if 1 \<le> 10 * digit_val d + digit_val e
                   then caps ! (10 * digit_val d + digit_val e - 1) else [c, d, e])
                  @ js_subst m pre post caps r'
             else (if 1 \<le> digit_val d \<and> digit_val d \<le> length caps
                   then caps ! (digit_val d - 1) else [c, d])
                  @ js_subst m pre post caps (e # r')
         | [] \<Rightarrow>
             (if 1 \<le> digit_val d \<and> digit_val d \<le> length caps
              then caps ! (digit_val d - 1) else [c, d]))
      else c # js_subst m pre post caps (d # r))"

text \<open>\<open>s.replace(/re/g, r)\<close>: a matcher tells whether the expression matches at the start of
  the text it is given, with the length of the match and the groups; a replacer builds the
  replacement. The scan moves from left to right and goes on behind each match.\<close>

type_synonym matcher = "string \<Rightarrow> (nat \<times> string list) option"
type_synonym replacer = "string \<Rightarrow> string \<Rightarrow> string \<Rightarrow> string list \<Rightarrow> string"

function replace_all :: "matcher \<Rightarrow> replacer \<Rightarrow> string \<Rightarrow> string \<Rightarrow> string" where
  "replace_all mt rp pre [] =
     (case mt [] of None \<Rightarrow> [] | Some (n, caps) \<Rightarrow> rp [] (rev pre) [] caps)"
| "replace_all mt rp pre (c # cs) =
     (case mt (c # cs) of
        None \<Rightarrow> c # replace_all mt rp (c # pre) cs
      | Some (n, caps) \<Rightarrow>
          if n = 0 then rp [] (rev pre) (c # cs) caps @ c # replace_all mt rp (c # pre) cs
          else rp (take n (c # cs)) (rev pre) (drop n (c # cs)) caps
               @ replace_all mt rp (rev (take n (c # cs)) @ pre) (drop n (c # cs)))"
  by pat_completeness auto
termination
  by (relation "measure (\<lambda>(mt, rp, pre, s). length s)") auto

text \<open>A replacement string, and a replacement function of the first group.\<close>

definition by_template :: "string \<Rightarrow> replacer" where
  "by_template t = (\<lambda>m pre post caps. js_subst m pre post caps t)"

definition by_group :: "(string \<Rightarrow> string) \<Rightarrow> replacer" where
  "by_group f = (\<lambda>m pre post caps. f (caps ! 0))"

text \<open>\<open>/(\$[\d,]+)/\<close> and \<open>/(\d+%)/\<close>.\<close>

definition match_dollar :: matcher where
  "match_dollar s =
     (case s of
        [] \<Rightarrow> None
      | c # r \<Rightarrow>
          (let run = takeWhile (\<lambda>x. is_digit x \<or> x = CHR '','') r
           in if c = CHR ''$'' \<and> run \<noteq> [] then Some (1 + length run, [c # run]) else None))"

definition match_percent :: matcher where
  "match_percent s =
     (let run = takeWhile is_digit s
      in if run \<noteq> [] \<and> prefix ''%'' (drop (length run) s)
         then Some (length run + 1, [run @ ''%'']) else None)"

text \<open>\<open>/\*\*(.+?)\*\*/\<close> and \<open>/_(.+?)_/\<close>: behind the opening delimiter, the shortest run of at
  least one character, none a line terminator, that the closing delimiter follows.\<close>

fun lazy_until :: "string \<Rightarrow> string \<Rightarrow> string \<Rightarrow> string option" where
  "lazy_until d acc [] = None"
| "lazy_until d acc (c # cs) =
     (if is_line_term c then None
      else if prefix d cs then Some (rev (c # acc))
      else lazy_until d (c # acc) cs)"

definition match_between :: "string \<Rightarrow> matcher" where
  "match_between d s =
     (if prefix d s
      then (case lazy_until d [] (drop (length d) s) of
              None \<Rightarrow> None
            | Some p1 \<Rightarrow> Some (length d + length p1 + length d, [p1]))
      else None)"

text \<open>\<open>/^\*\s/\<close>, replaced once by a replacement string.\<close>

definition replace_bullet :: "theme \<Rightarrow> string \<Rightarrow> string" where
  "replace_bullet th s =
     (case s of
        c # d # r \<Rightarrow>
          if c = CHR ''*'' \<and> is_space d
          then js_subst [c, d] [] r [] (dim th (glyph_bullet th @ '' '') @ '' '') @ r
          else s
      | _ \<Rightarrow> s)"

text \<open>\<open>/^###\s+(.+)$/\<close> and \<open>/^##\s+(.+)$/\<close>: the group is what follows the white space up to
  the end, without a line terminator; when nothing follows, the white space gives up its
  last character.\<close>

definition match_header :: "string \<Rightarrow> string \<Rightarrow> string option" where
  "match_header hashes s =
     (if prefix hashes s
      then (let r = drop (length hashes) s;
                w = takeWhile is_space r;
                body = dropWhile is_space r
            in if w = [] then None
               else if body \<noteq> [] then (if list_ex is_line_term body then None else Some body)
               else if 2 \<le> length w \<and> \<not> is_line_term (last w) then Some [last w]
               else None)
      else None)"

definition replace_header :: "string \<Rightarrow> (string \<Rightarrow> string) \<Rightarrow> string \<Rightarrow> string" where
  "replace_header hashes f s = (case match_header hashes s of None \<Rightarrow> s | Some p1 \<Rightarrow> f p1)"

text \<open>\<open>formatLine(text)\<close>, with the two header rules.\<close>

definition formatLine :: "theme \<Rightarrow> string \<Rightarrow> string" where
  "formatLine th text =
     (let t1 = replace_all match_dollar (by_template (highlight th ''$1'')) [] text;
          t2 = replace_all match_percent (by_template (highlight th ''$1'')) [] t1;
          t3 = replace_all (match_between ''**'') (by_group (bold th)) [] t2;
          t4 = replace_all (match_between ''_'') (by_group (italic th)) [] t3;
          t5 = replace_bullet th t4;
          t6 = replace_header ''###'' (bold_underline th) t5;
          t7 = replace_header ''##'' (bold th) t6
      in t7)"

text \<open>\<open>replace(/\x1b\[[0-9;]*m/g, '')\<close>.\<close>

definition match_ansi :: matcher where
  "match_ansi s =
     (case s of
        c # d # r \<Rightarrow>
          (let run = takeWhile (\<lambda>x. is_digit x \<or> x = CHR '';'') r
           in if c = CHR 0x1B \<and> d = CHR ''['' \<and> prefix ''m'' (drop (length run) r)
              then Some (2 + length run + 1, []) else None)
      | _ \<Rightarrow> None)"

definition strip_ansi :: "string \<Rightarrow> string" where
  "strip_ansi s = replace_all match_ansi (by_template []) [] s"

text \<open>\<open>truncateWithAnsi(text, maxLength)\<close>: the loop over the characters with \<open>length\<close> and
  \<open>inAnsi\<close>; \<open>break\<close> ends the result.\<close>

fun truncate_loop :: "int \<Rightarrow> int \<Rightarrow> bool \<Rightarrow> string \<Rightarrow> string" where
  "truncate_loop maxLength len inAnsi [] = []"
| "truncate_loop maxLength len inAnsi (c # cs) =
     (let inAnsi' = (if c = CHR 0x1B \<and> prefix ''['' cs then True else inAnsi)
      in if inAnsi' then c # truncate_loop maxLength len (if c = CHR ''m'' then False else inAnsi') cs
         else if len \<ge> maxLength then []
         else c # truncate_loop maxLength (len + 1) inAnsi' cs)"

definition truncateWithAnsi :: "string \<Rightarrow> int \<Rightarrow> string" where
  "truncateWithAnsi text maxLength = truncate_loop maxLength 0 False text"

text \<open>\<open>padEnd\<close>, \<open>repeat\<close>.\<close>

definition padEnd :: "string \<Rightarrow> nat \<Rightarrow> string" where
  "padEnd s n = s @ replicate (n - length s) CHR '' ''"

definition js_repeat :: "string \<Rightarrow> nat \<Rightarrow> string" where
  "js_repeat s n = concat (replicate n s)"

subsection \<open>Tables\<close>

text \<open>The parts of \<open>renderTable(lines, startIdx)\<close>: the lines collected by the \<open>while\<close> loop,
  \<open>rows\<close> and \<open>dataRows\<close>.\<close>

definition is_table_line :: "string \<Rightarrow> bool" where
  "is_table_line l = prefix ''|'' (trim l)"

definition table_lines :: "string list \<Rightarrow> nat \<Rightarrow> string list" where
  "table_lines lines startIdx = takeWhile is_table_line (drop startIdx lines)"

definition parse_row :: "string \<Rightarrow> string list" where
  "parse_row l = filter (\<lambda>cell. length cell > 0) (map trim (split_on ''|'' l))"

definition table_rows :: "string list \<Rightarrow> nat \<Rightarrow> string list list" where
  "table_rows lines startIdx =
     filter (\<lambda>row. length row > 0) (map parse_row (table_lines lines startIdx))"

definition is_separator_cell :: "string \<Rightarrow> bool" where
  "is_separator_cell cell = (cell \<noteq> [] \<and> list_all (\<lambda>c. c = CHR ''-'' \<or> c = CHR '':'') cell)"

definition table_data :: "string list \<Rightarrow> nat \<Rightarrow> string list list" where
  "table_data lines startIdx =
     filter (\<lambda>row. \<not> list_all is_separator_cell row) (table_rows lines startIdx)"

text \<open>\<open>Math.max(...xs)\<close> of natural numbers, for the non-empty lists it is called with;
  \<open>row[col] || ''\<close>; the column widths.\<close>

definition max_of :: "nat list \<Rightarrow> nat" where
  "max_of xs = fold max xs 0"

definition cell_at :: "string list \<Rightarrow> nat \<Rightarrow> string" where
  "cell_at row col = (if col < length row then row ! col else [])"

definition col_widths :: "string list list \<Rightarrow> nat list" where
  "col_widths dataRows =
     map (\<lambda>col. min (max_of (map (\<lambda>row. length (strip_ansi (cell_at row col))) dataRows) + 2) 35)
       [0 ..< max_of (map length dataRows)]"

text \<open>The borders, the header row, the data rows and the whole table.\<close>

definition border :: "theme \<Rightarrow> nat list \<Rightarrow> string \<Rightarrow> string" where
  "border th colWidths junction =
     ''  '' @ join (box_h th @ junction @ box_h th) (map (\<lambda>w. js_repeat (box_h th) w) colWidths)
     @ ''\<newline>''"

definition header_cell :: "theme \<Rightarrow> nat list \<Rightarrow> nat \<times> string \<Rightarrow> string" where
  "header_cell th colWidths ic =
     (case ic of (i, cell) \<Rightarrow>
        (let plainCell = strip_ansi cell;
             truncated = js_slice 0 (int (colWidths ! i) - 2) plainCell;
             padded = '' '' @ padEnd truncated (colWidths ! i - 2) @ '' ''
         in bold th padded))"

definition data_cell :: "theme \<Rightarrow> nat list \<Rightarrow> nat \<times> string \<Rightarrow> string" where
  "data_cell th colWidths ic =
     (case ic of (col, cell) \<Rightarrow>
        (let formatted = formatLine th cell;
             plainText = strip_ansi formatted;
             visibleLength = int (length plainText);
             targetWidth = int (colWidths ! col) - 2;
             truncated = truncateWithAnsi formatted targetWidth;
             paddingNeeded = targetWidth - min visibleLength targetWidth;
             padding = (if paddingNeeded > 0 then js_repeat '' '' (nat paddingNeeded) else [])
         in '' '' @ truncated @ padding @ '' ''))"

definition draw_table :: "theme \<Rightarrow> string list list \<Rightarrow> string" where
  "draw_table th dataRows =
     (let colWidths = col_widths dataRows
      in ''\<newline>''
         @ border th colWidths (box_down th)
         @ ''  '' @ box_v th
           @ join (box_v th) (map (header_cell th colWidths) (enumerate 0 (hd dataRows)))
           @ box_v th @ ''\<newline>''
         @ border th colWidths (box_cross th)
         @ concat (map (\<lambda>row. ''  '' @ box_v th
                                @ join (box_v th) (map (data_cell th colWidths) (enumerate 0 row))
                                @ box_v th @ ''\<newline>'')
                     (tl dataRows))
         @ border th colWidths (box_up th))"

definition renderTable :: "theme \<Rightarrow> string list \<Rightarrow> nat \<Rightarrow> string option \<times> nat" where
  "renderTable th lines startIdx =
     (let tableLines = table_lines lines startIdx;
          idx = startIdx + length tableLines
      in if length tableLines < 2 then (None, startIdx)
         else if length (table_rows lines startIdx) < 2 then (None, startIdx)
         else if length (table_data lines startIdx) = 0 then (None, startIdx)
         else (Some (draw_table th (table_data lines startIdx)), idx))"


text \<open>The loop of \<open>renderMarkdown\<close>, from line \<open>i\<close> with the \<open>result\<close> so far; a rendered
  table is used when it is a non-empty string.\<close>

function md_loop :: "theme \<Rightarrow> string list \<Rightarrow> nat \<Rightarrow> string \<Rightarrow> string" where
  "md_loop th lines i result =
     (if i < length lines
      then (if is_table_line (lines ! i)
            then (case renderTable th lines i of
                    (Some rendered, endIdx) \<Rightarrow>
                      if rendered \<noteq> [] then md_loop th lines endIdx (result @ rendered)
                      else md_loop th lines (i + 1) (result @ formatLine th (lines ! i) @ ''\<newline>'')
                  | (None, endIdx) \<Rightarrow>
                      md_loop th lines (i + 1) (result @ formatLine th (lines ! i) @ ''\<newline>''))
            else md_loop th lines (i + 1) (result @ formatLine th (lines ! i) @ ''\<newline>''))
      else result)"
  by pat_completeness auto
termination
  by (relation "measure (\<lambda>(th, lines, i, result). length lines - i)")
    (auto simp: renderTable_def Let_def split: if_splits)

declare md_loop.simps [simp del]

definition renderMarkdown :: "theme \<Rightarrow> string \<Rightarrow> string" where
  "renderMarkdown th md = md_loop th (split_on ''\<newline>'' md) 0 []"

subsection \<open>Streaming\<close>











subsection \<open>A concrete theme\<close>

text \<open>Styles that wrap the text in a pair of escape sequences; plain characters stand for
  the glyphs.\<close>

definition ansi :: "string \<Rightarrow> string \<Rightarrow> string \<Rightarrow> string" where
  "ansi opn cls s = CHR 0x1B # CHR ''['' # opn @ ''m'' @ s @ CHR 0x1B # CHR ''['' # cls @ ''m''"

definition example_theme :: theme where
  "example_theme =
     \<lparr>highlight = ansi ''38;2;52;199;89'' ''39'',
      dim = ansi ''38;2;99;99;102'' ''39'',
      agent = ansi ''38;2;255;255;255'' ''39'',
      agentLabel = ansi ''38;2;0;122;255'' ''39'',
      bold = ansi ''1'' ''22'',
      italic = ansi ''3'' ''23'',
      bold_underline = (\<lambda>s. ansi ''1'' ''22'' (ansi ''4'' ''24'' s)),
      glyph_bullet = ''o'', glyph_agent = ''@'',
      box_h = ''-'', box_v = ''!'', box_down = ''+'', box_cross = ''+'', box_up = ''+''\<rparr>"





definition example_table :: "string list" where
  "example_table = [''| A | B |'', ''|---|---|'', ''| 1 | 2 |'']"

definition blank_first :: "string list" where
  "blank_first = [''| |'', ''| A |'']"

definition header_only :: "string list" where
  "header_only = [''| A | B |'', ''|---|---|'']"


section \<open>Properties of splitting and of paths\<close>

lemma split_on_nonempty: "split_on sep s \<noteq> []"
  by (cases s) (auto split: list.splits)

lemma split_char_Cons:
  "split_on [c] (x # s) =
     (if x = c then [] # split_on [c] s
      else (x # hd (split_on [c] s)) # tl (split_on [c] s))"
  using split_on_nonempty [of "[c]" s]
  by (cases "split_on [c] s") auto

lemma split_char_no_sep: "c \<notin> set s \<Longrightarrow> split_on [c] s = [s]"
  by (induction s) (auto simp add: split_char_Cons simp del: split_on.simps(2))

lemma entry_of_plain:
  assumes "CHR ''/'' \<notin> set p" and "p \<noteq> []" and "p \<noteq> ''.''" and "p \<noteq> ''..''"
  shows "entry_of p = Some p"
proof -
  have "split_on ''/'' p = [p]"
    using assms(1) by (rule split_char_no_sep)
  with assms(2,3,4) show ?thesis
    by (simp add: entry_of_def)
qed

lemma entry_of_session_file:
  assumes "CHR ''/'' \<notin> set i"
  shows "entry_of (session_file i) = Some (session_file i)"
proof (rule entry_of_plain)
  show "CHR ''/'' \<notin> set (session_file i)"
    using assms by (simp add: session_file_def)
  have "5 \<le> length (session_file i)"
    by (simp add: session_file_def)
  then show "session_file i \<noteq> []" "session_file i \<noteq> ''.''" "session_file i \<noteq> ''..''"
    by auto
qed


section \<open>Properties of the session store\<close>

subsection \<open>The history cap\<close>

lemma js_slice_from_neg: "0 < n \<Longrightarrow> js_slice_from (- n) xs = newest (nat n) xs"
  by (auto simp: js_slice_from_def js_slice_def newest_def Let_def max_def min_def nat_diff_distrib)

lemma kept_newest:
  "(if int (length xs) > MAX_HISTORY_TURNS * 2 then js_slice_from (- MAX_HISTORY_TURNS * 2) xs else xs)
   = newest 20 xs"
proof -
  have "js_slice_from (- MAX_HISTORY_TURNS * 2) xs = newest 20 xs"
    using js_slice_from_neg [of 20 xs] by (simp add: MAX_HISTORY_TURNS_def)
  moreover have "\<not> int (length xs) > MAX_HISTORY_TURNS * 2 \<Longrightarrow> newest 20 xs = xs"
    by (simp add: MAX_HISTORY_TURNS_def newest_def)
  ultimately show ?thesis by simp
qed

lemma newest_newest_append: "newest n (newest n xs @ ys) = newest n (xs @ ys)"
proof (cases "n \<le> length xs")
  case True
  then have "length xs + length ys - (length xs - n + n) + (length xs - n) = length xs + length ys - n"
    by simp
  then show ?thesis using True by (auto simp: newest_def)
next
  case False
  then show ?thesis by (simp add: newest_def)
qed

lemma length_newest: "length (newest n xs) = min n (length xs)"
  by (auto simp: newest_def)

lemma addMessage_current:
  assumes "currentSession m = Some s"
  shows "\<exists>s'. currentSession (fst (addMessage env now m fs r c)) = Some s'
           \<and> messages s' = newest 20 (messages s @ [\<lparr>role = r, content = c, timestamp = now\<rparr>])"
  using assms kept_newest [of "messages s @ [\<lparr>role = r, content = c, timestamp = now\<rparr>]"]
  by (simp add: addMessage_def Let_def)

lemma addMessages_current:
  assumes "currentSession m = Some s" and "calls \<noteq> []"
  shows "\<exists>s'. currentSession (fst (addMessages env m fs calls)) = Some s'
           \<and> messages s' = newest 20 (messages s @ map stamped calls)"
  using assms
proof (induction calls arbitrary: m fs s)
  case Nil
  then show ?case by simp
next
  case (Cons x rest)
  obtain now r c where x: "x = (now, r, c)" by (cases x) auto
  obtain m1 fs1 where step: "addMessage env now m fs r c = (m1, fs1)" by fastforce
  from addMessage_current [OF Cons.prems(1), of env now fs r c] step
  obtain s1 where s1: "currentSession m1 = Some s1"
    "messages s1 = newest 20 (messages s @ [stamped x])"
    by (auto simp: x stamped_def)
  show ?case
  proof (cases "rest = []")
    case True
    with s1 step show ?thesis by (simp add: x)
  next
    case False
    from Cons.IH [OF s1(1) False, of fs1]
    obtain s' where "currentSession (fst (addMessages env m1 fs1 rest)) = Some s'"
      "messages s' = newest 20 (messages s1 @ map stamped rest)" by blast
    then show ?thesis
      using step s1(2) by (simp add: x newest_newest_append)
  qed
qed

text \<open>
  C1. With a current session, \<open>addMessage\<close> leaves a current session whose history has at
  most \<open>2 * MAX_HISTORY_TURNS = 20\<close> messages: the 20 newest of the old history followed
  by the new message. After 50 calls (25 user and assistant pairs are one such run) the
  history is exactly the last 20 appended messages, in the order of the calls.
\<close>

theorem addMessage_history_cap:
  assumes "currentSession m = Some s"
  shows "(\<exists>s'. currentSession (fst (addMessage env now m fs r c)) = Some s'
            \<and> int (length (messages s')) \<le> 2 * MAX_HISTORY_TURNS
            \<and> messages s' = newest 20 (messages s @ [\<lparr>role = r, content = c, timestamp = now\<rparr>]))
       \<and> (length calls = 50 \<longrightarrow>
            (\<exists>s'. currentSession (fst (addMessages env m fs calls)) = Some s'
               \<and> length (messages s') = 20
               \<and> messages s' = map stamped (drop 30 calls)))"
proof (intro conjI impI)
  from addMessage_current [OF assms, of env now fs r c]
  show "\<exists>s'. currentSession (fst (addMessage env now m fs r c)) = Some s'
            \<and> int (length (messages s')) \<le> 2 * MAX_HISTORY_TURNS
            \<and> messages s' = newest 20 (messages s @ [\<lparr>role = r, content = c, timestamp = now\<rparr>])"
    by (auto simp: length_newest MAX_HISTORY_TURNS_def)
next
  assume len: "length calls = 50"
  then have ne: "calls \<noteq> []" by auto
  have "newest 20 (messages s @ map stamped calls) = map stamped (drop 30 calls)"
    using len by (simp add: newest_def drop_map)
  with addMessages_current [OF assms ne, of env fs] len
  show "\<exists>s'. currentSession (fst (addMessages env m fs calls)) = Some s'
               \<and> length (messages s') = 20
               \<and> messages s' = map stamped (drop 30 calls)"
    by auto
qed

theorem addMessage_history_cap_witness:
  "currentSession example_manager = Some example_session
   \<and> length example_calls = 50
   \<and> (\<exists>s'. currentSession (fst (addMessages example_platform example_manager example_dir example_calls)) = Some s'
          \<and> length (messages s') = 20
          \<and> messages s' = map stamped (drop 30 example_calls))"
proof -
  have h: "currentSession example_manager = Some example_session"
    by (simp add: example_manager_def)
  have l: "length example_calls = 50"
    by (simp add: example_calls_def length_concat sum_list_replicate)
  from addMessage_history_cap [OF h, of example_platform "''t''" example_dir "''user''" "''q''" example_calls] l h
  show ?thesis by blast
qed

subsection \<open>Deleting a session\<close>

lemma loadSessionsList_returns: "\<exists>m'. loadSessionsList env m fs = Inr m'"
  by (simp add: loadSessionsList_def split: sum.splits)

lemma loadSessionsList_current:
  "loadSessionsList env m fs = Inr m' \<Longrightarrow> m' = m\<lparr>sessions := sessions m'\<rparr>"
  by (auto simp: loadSessionsList_def split: sum.splits)

text \<open>
  C10. \<open>deleteSession\<close> returns normally for every id, whether the file exists or not,
  and the manager it leaves differs from the old one in the \<open>sessions\<close> listing at most:
  \<open>currentSession\<close> is the same, also when the id is the current session's.
\<close>

theorem deleteSession_keeps_current:
  "\<exists>m' fs' ok. deleteSession env m fs i = Inr (m', fs', ok)
      \<and> currentSession m' = currentSession m
      \<and> m' = m\<lparr>sessions := sessions m'\<rparr>"
proof (cases "unlink fs (session_file i)")
  case (Inl e)
  then show ?thesis by (auto simp: deleteSession_def)
next
  case (Inr fs')
  obtain m' where m': "loadSessionsList env m fs' = Inr m'"
    using loadSessionsList_returns by blast
  from loadSessionsList_current [OF m'] have eq: "m' = m\<lparr>sessions := sessions m'\<rparr>" .
  then have "currentSession m' = currentSession m"
    by (metis manager.select_convs(1) manager.surjective manager.update_convs(2))
  with Inr m' eq show ?thesis by (auto simp: deleteSession_def)
qed

theorem deleteSession_keeps_current_witness:
  "\<exists>m' fs'. deleteSession example_platform example_manager example_dir (sid example_session)
       = Inr (m', fs', True)
     \<and> currentSession m' = Some example_session
     \<and> map_of (files fs') ''taxes.json'' = None"
proof -
  have e: "entry_of (session_file ''taxes'') = Some ''taxes.json''"
    using entry_of_session_file [of "''taxes''"] by (simp add: session_file_def)
  show ?thesis
    using deleteSession_keeps_current [of example_platform example_manager example_dir "sid example_session"]
    by (simp add: deleteSession_def unlink_def loadSessionsList_def readdir_def e
        example_session_def example_manager_def example_dir_def example_platform_def suffix_to_prefix)
qed

subsection \<open>Saving and loading\<close>




subsection \<open>Soft failures\<close>

text \<open>None of the three operations throws; each failure has its own value.\<close>

lemma loadSession_returns: "\<exists>m' r. loadSession env m fs i = Inr (m', r)"
  by (simp add: loadSession_def split: sum.splits)

lemma loadSession_unreadable:
  "readFile fs (session_file i) = Inl e \<Longrightarrow> loadSession env m fs i = Inr (m, None)"
  by (simp add: loadSession_def)

lemma loadSession_missing:
  "CHR ''/'' \<notin> set i \<Longrightarrow> map_of (files fs) (session_file i) = None \<Longrightarrow>
   loadSession env m fs i = Inr (m, None)"
  by (simp add: loadSession_def readFile_def entry_of_session_file)

lemma loadSession_malformed:
  "readFile fs (session_file i) = Inr d \<Longrightarrow> parse env d = Inl e \<Longrightarrow>
   loadSession env m fs i = Inr (m, None)"
  by (simp add: loadSession_def)

lemma loadSessionsList_unreadable:
  "\<not> dir_ok fs \<Longrightarrow> loadSessionsList env m fs = Inr (m\<lparr>sessions := []\<rparr>)"
  by (simp add: loadSessionsList_def readdir_def)

lemma deleteSession_failed:
  "unlink fs (session_file i) = Inl e \<Longrightarrow> deleteSession env m fs i = Inr (m, fs, False)"
  by (simp add: deleteSession_def)

lemma deleteSession_missing:
  "CHR ''/'' \<notin> set i \<Longrightarrow> session_file i \<notin> fst ` set (files fs) \<Longrightarrow>
   deleteSession env m fs i = Inr (m, fs, False)"
  by (simp add: deleteSession_def unlink_def entry_of_session_file)

lemma deleteSession_removes:
  "dir_ok fs \<Longrightarrow> CHR ''/'' \<notin> set i \<Longrightarrow> session_file i \<in> fst ` set (files fs) \<Longrightarrow>
   \<exists>m' fs'. deleteSession env m fs i = Inr (m', fs', True)
     \<and> session_file i \<notin> fst ` set (files fs')"
  by (simp add: deleteSession_def unlink_def loadSessionsList_def readdir_def delete_notin_dom
      entry_of_session_file)

text \<open>
  C9. The listing takes a file name ending in \<open>.json\<close> and removes the first \<open>.json\<close> in
  it, not the suffix. In a directory with the files of the sessions \<open>a.jsonb\<close> and
  \<open>ab.json\<close>, both are listed as \<open>ab.json\<close>; \<open>deleteSession\<close> of \<open>ab.json\<close> removes
  \<open>ab.json.json\<close>, returns true, and the refreshed listing still holds \<open>ab.json\<close>.
\<close>

theorem deleteSession_listing_keeps_id:
  "\<exists>m' fs'. deleteSession env m clashing_dir ''ab.json'' = Inr (m', fs', True)
      \<and> map fst (files fs') = [''a.jsonb.json'']
      \<and> ''ab.json'' \<in> set (sessions m')"
proof -
  have e: "entry_of (session_file ''ab.json'') = Some ''ab.json.json''"
    using entry_of_session_file [of "''ab.json''"] by (simp add: session_file_def)
  show ?thesis
    by (simp add: deleteSession_def unlink_def loadSessionsList_def readdir_def e
        clashing_dir_def suffix_to_prefix)
qed


section \<open>Properties of the retriever\<close>

subsection \<open>The score\<close>

lemma js_includes_sublist: "js_includes hay needle = sublist needle hay"
  by (induction hay) (auto simp: sublist_Cons_right)

lemma char_eq_code: "c = char_of (k::nat) \<longleftrightarrow> of_char c = k mod 256"
  by (metis char_of_char of_char_of)

lemma is_space_code:
  "is_space c \<longleftrightarrow> (of_char c :: nat) \<in> {9, 10, 11, 12, 13, 32, 160}"
proof -
  have lits: "CHR 0x09 = char_of (9::nat)" "CHR 0x0A = char_of (10::nat)"
    "CHR 0x0B = char_of (11::nat)" "CHR 0x0C = char_of (12::nat)"
    "CHR 0x0D = char_of (13::nat)" "CHR 0x20 = char_of (32::nat)"
    "CHR 0xA0 = char_of (160::nat)"
    by (simp_all add: char_of_def bit_0 bit_Suc)
  show ?thesis
    unfolding is_space_def lits by (simp add: char_eq_code del: char_of_quasi_inj)
qed

lemma is_space_lower [simp]: "is_space (lower_char c) = is_space c"
proof -
  define n where "n = (of_char c :: nat)"
  show ?thesis
  proof (cases "(65 \<le> n \<and> n \<le> 90) \<or> (192 \<le> n \<and> n \<le> 222 \<and> n \<noteq> 215)")
    case True
    then have "lower_char c = char_of (n + 32)"
      by (simp add: lower_char_def n_def)
    moreover from True have "n + 32 < 256"
      by arith
    then have "(n + 32) mod 256 = n + 32"
      by simp
    ultimately have up: "(of_char (lower_char c) :: nat) = n + 32"
      by simp
    from True have "\<not> (n + 32 = 9 \<or> n + 32 = 10 \<or> n + 32 = 11 \<or> n + 32 = 12
        \<or> n + 32 = 13 \<or> n + 32 = 32 \<or> n + 32 = 160)"
      by arith
    moreover from True have "\<not> (n = 9 \<or> n = 10 \<or> n = 11 \<or> n = 12
        \<or> n = 13 \<or> n = 32 \<or> n = 160)"
      by arith
    ultimately show ?thesis
      unfolding is_space_code up by (simp add: n_def [symmetric])
  next
    case False
    then have "lower_char c = c"
      unfolding lower_char_def Let_def n_def by (simp only: if_False)
    then show ?thesis by simp
  qed
qed

lemma split_ws_lower: "split_ws (toLowerCase s) = map toLowerCase (split_ws s)"
proof (induction s rule: split_ws.induct)
  case (1 s)
  let ?tok = "takeWhile (\<lambda>c. \<not> is_space c) s"
  let ?rest = "dropWhile (\<lambda>c. \<not> is_space c) s"
  have tw: "takeWhile (\<lambda>c. \<not> is_space c) (toLowerCase s) = toLowerCase ?tok"
    by (simp add: toLowerCase_def takeWhile_map comp_def)
  have dw: "dropWhile (\<lambda>c. \<not> is_space c) (toLowerCase s) = toLowerCase ?rest"
    by (simp add: toLowerCase_def dropWhile_map comp_def)
  have dw2: "dropWhile is_space (toLowerCase ?rest) = toLowerCase (dropWhile is_space ?rest)"
    by (simp add: toLowerCase_def dropWhile_map comp_def)
  show ?case
  proof (cases "?rest = []")
    case True
    then have "toLowerCase ?rest = []" by (simp add: toLowerCase_def)
    with True tw dw show ?thesis
      by (simp add: split_ws.simps [of s] split_ws.simps [of "toLowerCase s"])
  next
    case False
    then have ne: "toLowerCase ?rest \<noteq> []" by (simp add: toLowerCase_def)
    from "1.IH" [OF refl refl False]
    have "split_ws (toLowerCase (dropWhile is_space ?rest))
            = map toLowerCase (split_ws (dropWhile is_space ?rest))" .
    with False ne tw dw dw2 show ?thesis
      by (auto simp add: split_ws.simps [of s] split_ws.simps [of "toLowerCase s"] Let_def)
  qed
qed

lemma length_toLowerCase [simp]: "length (toLowerCase s) = length s"
  by (simp add: toLowerCase_def)

lemma score_loop:
  "foldl (\<lambda>s kw. if P kw then s + 2 else s) (a::int) kws = a + 2 * int (length (filter P kws))"
  by (induction kws arbitrary: a) auto

text \<open>
  C2. The score of a chunk is 10 if the lower-cased chunk contains the lower-cased query,
  plus 2 for each white-space separated token of the query longer than 3 characters whose
  lower-cased form occurs in the lower-cased chunk, plus 1 if the chunk itself, as it is
  written, contains \<open>Table\<close> or \<open>$\<close>: the bonus test is case-sensitive.
\<close>

theorem relevance_formula:
  "relevance query c =
     (if sublist (toLowerCase query) (toLowerCase c) then 10 else 0)
     + 2 * int (length (filter (\<lambda>w. sublist (toLowerCase w) (toLowerCase c))
                          (filter (\<lambda>w. length w > 3) (split_ws query))))
     + (if sublist ''Table'' c \<or> sublist ''$'' c then 1 else 0)"
  by (simp add: relevance_def score_chunk_def Let_def score_loop js_includes_sublist
      split_ws_lower filter_map comp_def)

theorem relevance_formula_witness:
  "relevance ''Standard Deduction'' ''the standard deduction TABLE is $1,000'' = 15"
proof -
  have "relevance ''Standard Deduction'' ''the standard deduction TABLE is $1,000''
      = (if sublist (toLowerCase ''Standard Deduction'') (toLowerCase ''the standard deduction TABLE is $1,000'') then 10 else 0)
     + 2 * int (length (filter (\<lambda>w. sublist (toLowerCase w) (toLowerCase ''the standard deduction TABLE is $1,000''))
                          (filter (\<lambda>w. length w > 3) (split_ws ''Standard Deduction''))))
     + (if sublist ''Table'' ''the standard deduction TABLE is $1,000'' \<or> sublist ''$'' ''the standard deduction TABLE is $1,000'' then 1 else 0)"
    by (rule relevance_formula)
  also have "\<dots> = 15"
    by code_simp
  finally show ?thesis .
qed

text \<open>A chunk with \<open>table\<close> in lower case gets no bonus, where the score with every test
  case-insensitive would be 1.\<close>

theorem score_bonus_case_sensitive:
  "relevance ''xyzw'' ''table'' = 0 \<and> claimed_score ''xyzw'' ''table'' = 1"
  by code_simp

subsection \<open>The ranking\<close>

lemma js_insert_insort:
  "js_insert (\<lambda>a b. f b - f a) x ys = insort_key (\<lambda>y. - f y) x ys" for f :: "'a \<Rightarrow> int"
  by (induction ys) auto

lemma js_sort_sort_key:
  "js_sort (\<lambda>a b. f b - f a) xs = sort_key (\<lambda>y. - f y) xs" for f :: "'a \<Rightarrow> int"
  by (induction xs) (auto simp: js_insert_insort sort_key_def)

lemma js_slice_take: "0 \<le> n \<Longrightarrow> js_slice 0 n xs = take (nat n) xs"
  by (auto simp: js_slice_def Let_def min_def)

lemma findRelevantChunks_ranked:
  "findRelevantChunks chunks query m =
     map chunk (js_slice 0 m (js_sort (\<lambda>a b. score b - score a) (scored_chunks query chunks)))"
  by (simp add: findRelevantChunks_def scored_chunks_def relevance_def Let_def)

lemma scored_chunks_score: "x \<in> set (scored_chunks query chunks) \<Longrightarrow> score x = relevance query (chunk x)"
  by (auto simp: scored_chunks_def)

lemma scored_chunks_chunk: "map chunk (scored_chunks query chunks) = chunks"
proof -
  have "map chunk (scored_chunks query chunks) = map snd (enumerate 0 chunks)"
    by (simp add: scored_chunks_def case_prod_beta comp_def)
  then show ?thesis by simp
qed

lemma filter_scored_chunks:
  "map chunk (filter (\<lambda>x. score x = v) (scored_chunks query chunks))
     = filter (\<lambda>c. relevance query c = v) chunks"
proof -
  have "filter (\<lambda>x. score x = v) (scored_chunks query chunks)
          = filter (\<lambda>x. relevance query (chunk x) = v) (scored_chunks query chunks)"
    by (rule filter_cong) (simp_all add: scored_chunks_score)
  then have "map chunk (filter (\<lambda>x. score x = v) (scored_chunks query chunks))
          = filter (\<lambda>c. relevance query c = v) (map chunk (scored_chunks query chunks))"
    by (simp add: filter_map comp_def)
  then show ?thesis by (simp add: scored_chunks_chunk)
qed

text \<open>
  C3. For \<open>maxChunks \<ge> 0\<close>, \<open>findRelevantChunks\<close> returns at most \<open>maxChunks\<close> chunks,
  all of them input chunks, in order of non-increasing score; the returned chunks of any
  one score are the first input chunks of that score, in input order.
\<close>

theorem findRelevantChunks_ranking:
  assumes "0 \<le> m"
  shows "length (findRelevantChunks chunks query m) \<le> nat m
       \<and> set (findRelevantChunks chunks query m) \<subseteq> set chunks
       \<and> sorted_wrt (\<lambda>a b. relevance query a \<ge> relevance query b)
            (findRelevantChunks chunks query m)
       \<and> (\<forall>v. prefix (filter (\<lambda>c. relevance query c = v) (findRelevantChunks chunks query m))
                      (filter (\<lambda>c. relevance query c = v) chunks))"
proof -
  let ?S = "scored_chunks query chunks"
  let ?T = "sort_key (\<lambda>y. - score y) ?S"
  have R: "findRelevantChunks chunks query m = map chunk (take (nat m) ?T)"
    using assms by (simp add: findRelevantChunks_ranked js_sort_sort_key js_slice_take)
  have inT: "x \<in> set (take (nat m) ?T) \<Longrightarrow> score x = relevance query (chunk x)" for x
    using scored_chunks_score [of x query chunks] by (auto dest: in_set_takeD)
  have len: "length (findRelevantChunks chunks query m) \<le> nat m"
    by (simp add: R)
  have "set (take (nat m) ?T) \<subseteq> set ?T"
    by (rule set_take_subset)
  then have "set (take (nat m) ?T) \<subseteq> set ?S"
    by simp
  then have "set (map chunk (take (nat m) ?T)) \<subseteq> set (map chunk ?S)"
    by auto
  then have mem: "set (findRelevantChunks chunks query m) \<subseteq> set chunks"
    by (simp only: R scored_chunks_chunk)
  have "sorted (map (\<lambda>y. - score y) ?T)"
    by (rule sorted_sort_key)
  then have "sorted_wrt (\<lambda>a b. score a \<ge> score b) ?T"
    by (simp add: sorted_map)
  then have "sorted_wrt (\<lambda>a b. score a \<ge> score b) (take (nat m) ?T)"
    by (rule sorted_wrt_take)
  then have "sorted_wrt (\<lambda>a b. relevance query (chunk a) \<ge> relevance query (chunk b)) (take (nat m) ?T)"
  proof (rule sorted_wrt_mono_rel [rotated])
    fix x y
    assume "x \<in> set (take (nat m) ?T)" "y \<in> set (take (nat m) ?T)" "score y \<le> score x"
    then show "relevance query (chunk y) \<le> relevance query (chunk x)"
      using inT [of x] inT [of y] by (simp only:)
  qed
  then have srt: "sorted_wrt (\<lambda>a b. relevance query a \<ge> relevance query b)
      (findRelevantChunks chunks query m)"
    by (simp add: R sorted_wrt_map)
  have stab: "prefix (filter (\<lambda>c. relevance query c = v) (findRelevantChunks chunks query m))
                     (filter (\<lambda>c. relevance query c = v) chunks)" for v
  proof -
    have "filter (\<lambda>c. relevance query c = v) (findRelevantChunks chunks query m)
            = map chunk (filter (\<lambda>x. relevance query (chunk x) = v) (take (nat m) ?T))"
      by (simp add: R filter_map comp_def)
    also have "filter (\<lambda>x. relevance query (chunk x) = v) (take (nat m) ?T)
            = filter (\<lambda>x. - score x = - v) (take (nat m) ?T)"
    proof (rule filter_cong [OF refl])
      fix x
      assume "x \<in> set (take (nat m) ?T)"
      then have "score x = relevance query (chunk x)" by (rule inT)
      then show "(relevance query (chunk x) = v) = (- score x = - v)" by simp
    qed
    finally have eq: "filter (\<lambda>c. relevance query c = v) (findRelevantChunks chunks query m)
            = map chunk (filter (\<lambda>x. - score x = - v) (take (nat m) ?T))" .
    have "prefix (filter (\<lambda>x. - score x = - v) (take (nat m) ?T)) (filter (\<lambda>x. - score x = - v) ?T)"
      by (rule filter_mono_prefix) (rule take_is_prefix)
    then have "prefix (filter (\<lambda>x. - score x = - v) (take (nat m) ?T)) (filter (\<lambda>x. - score x = - v) ?S)"
      by (simp only: sort_key_stable)
    then have "prefix (filter (\<lambda>x. - score x = - v) (take (nat m) ?T)) (filter (\<lambda>x. score x = v) ?S)"
      by simp
    then have "prefix (map chunk (filter (\<lambda>x. - score x = - v) (take (nat m) ?T)))
                      (map chunk (filter (\<lambda>x. score x = v) ?S))"
      by (rule map_mono_prefix)
    then show ?thesis
      by (simp only: eq filter_scored_chunks)
  qed
  show ?thesis
    using len mem srt stab by (intro conjI allI)
qed

lemma example_ranking: "findRelevantChunks example_chunks ''bbbb'' 3 = [''bbbb Table'', ''dddd bbbb'', ''$'']"
  by code_simp

theorem findRelevantChunks_ranking_witness:
  "(0::int) \<le> 3
   \<and> findRelevantChunks example_chunks ''bbbb'' 3 = [''bbbb Table'', ''dddd bbbb'', ''$'']
   \<and> length (findRelevantChunks example_chunks ''bbbb'' 3) \<le> nat 3
   \<and> set (findRelevantChunks example_chunks ''bbbb'' 3) \<subseteq> set example_chunks
   \<and> sorted_wrt (\<lambda>a b. relevance ''bbbb'' a \<ge> relevance ''bbbb'' b)
        (findRelevantChunks example_chunks ''bbbb'' 3)"
proof -
  have h: "(0::int) \<le> 3" by simp
  note r = findRelevantChunks_ranking [OF h, of example_chunks "''bbbb''"]
  show ?thesis
    using h example_ranking r [THEN conjunct1] r [THEN conjunct2, THEN conjunct1]
      r [THEN conjunct2, THEN conjunct2, THEN conjunct1]
    by (intro conjI)
qed


section \<open>Properties of the chunker\<close>

subsection \<open>Chunk sizes\<close>

text \<open>
  C4. The loop compares \<open>currentChunk.length + para.length\<close> with the size and then adds
  the paragraph behind a separator of two characters that the comparison leaves out. With
  size 3 the paragraphs \<open>bb\<close> and \<open>c\<close> end up in one chunk of 5 characters, although no
  paragraph is longer than 3.
\<close>

theorem createChunks_oversized:
  "createChunks ''aa\<newline>\<newline>bb\<newline>\<newline>c'' 3 = [''aa'', ''bb\<newline>\<newline>c'']
   \<and> split_on ''\<newline>\<newline>'' ''aa\<newline>\<newline>bb\<newline>\<newline>c'' = [''aa'', ''bb'', ''c'']"
  by code_simp

text \<open>The excess is never more than the separator, unless the chunk is one long
  paragraph.\<close>

lemma trim_leading: "list_all is_space w \<Longrightarrow> trim (w @ s) = trim s"
proof -
  assume "list_all is_space w"
  then have "dropWhile is_space (w @ s) = dropWhile is_space s"
    by (induction w) auto
  then show ?thesis by (simp add: trim_def)
qed

lemma length_trim_le: "length (trim s) \<le> length s"
proof -
  have "length (trim s) \<le> length (dropWhile is_space s)"
    unfolding trim_def by (metis length_dropWhile_le length_rev)
  also have "\<dots> \<le> length s" by (rule length_dropWhile_le)
  finally show ?thesis .
qed

lemma chunk_loop_within:
  assumes "cur = [] \<or> int (length cur) \<le> n + 2
             \<or> (\<exists>p\<in>set paras. int (length p) > n \<and> trim cur = trim p)"
    and "\<forall>c\<in>set chunks. within n paras c"
    and "set ps \<subseteq> set paras"
    and "foldl (chunk_step n) (chunks, cur) ps = (chunks', cur')"
  shows "(cur' = [] \<or> int (length cur') \<le> n + 2
             \<or> (\<exists>p\<in>set paras. int (length p) > n \<and> trim cur' = trim p))
       \<and> (\<forall>c\<in>set chunks'. within n paras c)"
  using assms
proof (induction ps arbitrary: chunks cur)
  case Nil
  then show ?case by simp
next
  case (Cons q ps)
  have q: "q \<in> set paras" and ps: "set ps \<subseteq> set paras"
    using Cons.prems(3) by auto
  show ?case
  proof (cases "int (length cur) + int (length q) > n \<and> length cur > 0")
    case True
    then have step: "chunk_step n (chunks, cur) q = (chunks @ [trim cur], q)"
      by (simp add: chunk_step_def)
    have "within n paras (trim cur)"
    proof -
      from True Cons.prems(1) consider "int (length cur) \<le> n + 2"
        | "\<exists>p\<in>set paras. int (length p) > n \<and> trim cur = trim p"
        by auto
      then show ?thesis
      proof cases
        case 1
        with length_trim_le [of cur] show ?thesis by (simp add: within_def)
      next
        case 2
        then show ?thesis by (simp add: within_def)
      qed
    qed
    with Cons.prems(2) have a: "\<forall>c\<in>set (chunks @ [trim cur]). within n paras c"
      by simp
    have b: "q = [] \<or> int (length q) \<le> n + 2
        \<or> (\<exists>p\<in>set paras. int (length p) > n \<and> trim q = trim p)"
    proof (cases "int (length q) \<le> n + 2")
      case True
      then show ?thesis by simp
    next
      case False
      then have "int (length q) > n" by simp
      with q show ?thesis by blast
    qed
    from Cons.prems(4) step have "foldl (chunk_step n) (chunks @ [trim cur], q) ps = (chunks', cur')"
      by simp
    from Cons.IH [OF b a ps this] show ?thesis .
  next
    case False
    then have step: "chunk_step n (chunks, cur) q = (chunks, cur @ ''\<newline>\<newline>'' @ q)"
      by (simp add: chunk_step_def)
    have b: "cur @ ''\<newline>\<newline>'' @ q = [] \<or> int (length (cur @ ''\<newline>\<newline>'' @ q)) \<le> n + 2
        \<or> (\<exists>p\<in>set paras. int (length p) > n \<and> trim (cur @ ''\<newline>\<newline>'' @ q) = trim p)"
    proof (cases "cur = []")
      case True
      have "trim (''\<newline>\<newline>'' @ q) = trim q"
        by (rule trim_leading) (simp add: is_space_def)
      with True q show ?thesis
        by (cases "int (length q) > n") auto
    next
      case False
      with \<open>\<not> (int (length cur) + int (length q) > n \<and> length cur > 0)\<close>
      have "int (length cur) + int (length q) \<le> n" by simp
      then show ?thesis by simp
    qed
    from Cons.prems(4) step have "foldl (chunk_step n) (chunks, cur @ ''\<newline>\<newline>'' @ q) ps = (chunks', cur')"
      by simp
    from Cons.IH [OF b Cons.prems(2) ps this] show ?thesis .
  qed
qed

lemma createChunks_within:
  assumes "c \<in> set (createChunks text n)"
  shows "within n (split_on ''\<newline>\<newline>'' text) c"
proof -
  let ?paras = "split_on ''\<newline>\<newline>'' text"
  obtain chunks' cur' where run: "foldl (chunk_step n) ([], []) ?paras = (chunks', cur')"
    by fastforce
  have "([] :: string) = [] \<or> int (length ([] :: string)) \<le> n + 2
      \<or> (\<exists>p\<in>set ?paras. int (length p) > n \<and> trim [] = trim p)"
    by simp
  from chunk_loop_within [OF this _ subset_refl run]
  have cur: "cur' = [] \<or> int (length cur') \<le> n + 2
             \<or> (\<exists>p\<in>set ?paras. int (length p) > n \<and> trim cur' = trim p)"
    and chunks: "\<forall>c\<in>set chunks'. within n ?paras c"
    by simp_all
  from assms run have "c \<in> set chunks' \<or> (trim cur' \<noteq> [] \<and> c = trim cur')"
    by (auto simp: createChunks_def split: if_splits)
  then show ?thesis
  proof
    assume "c \<in> set chunks'"
    with chunks show ?thesis by simp
  next
    assume last: "trim cur' \<noteq> [] \<and> c = trim cur'"
    then have "cur' \<noteq> []" by (auto simp: trim_def)
    with cur consider "int (length cur') \<le> n + 2"
      | "\<exists>p\<in>set ?paras. int (length p) > n \<and> trim cur' = trim p"
      by auto
    then show ?thesis
    proof cases
      case 1
      with length_trim_le [of cur'] last show ?thesis by (simp add: within_def)
    next
      case 2
      with last show ?thesis by (simp add: within_def)
    qed
  qed
qed

subsection \<open>Chunk content\<close>

lemma join_split_on: "sep \<noteq> [] \<Longrightarrow> join sep (split_on sep s) = s"
proof (induction sep s rule: split_on.induct)
  case (1 sep)
  then show ?case by simp
next
  case (2 sep c cs)
  show ?case
  proof (cases "prefix sep (c # cs)")
    case True
    then obtain r where r: "c # cs = sep @ r" by (auto simp: prefix_def)
    then have d: "drop (length sep) (c # cs) = r" by (metis append_eq_conv_conj)
    from "2.IH"(1) True "2.prems" d have "join sep (split_on sep r) = r" by simp
    moreover obtain p ps where "split_on sep r = p # ps"
      by (cases r; cases "split_on sep r") (auto split: if_splits list.splits)
    moreover have "split_on sep (c # cs) = [] # split_on sep r"
      using True "2.prems" d by simp
    ultimately have "join sep (split_on sep (c # cs)) = sep @ r"
      by simp
    with r show ?thesis by simp
  next
    case False
    obtain p ps where ps: "split_on sep cs = p # ps"
      by (cases cs; cases "split_on sep cs") (auto split: if_splits list.splits)
    from "2.IH"(2) False "2.prems" have "join sep (split_on sep cs) = cs" by simp
    with ps False show ?thesis by (cases ps) auto
  qed
qed


lemma spaced_append: "spaced t1 cs1 \<Longrightarrow> spaced t2 cs2 \<Longrightarrow> spaced (t1 @ t2) (cs1 @ cs2)"
proof (induction rule: spaced.induct)
  case (gap g)
  from gap(2) gap(1) show ?case
  proof (induction rule: spaced.cases)
    case (gap g')
    then show ?case by (simp add: spaced.gap)
  next
    case (piece g' t cs c)
    then have "spaced ((g @ g') @ c @ t) (c # cs)"
      by (intro spaced.piece) simp_all
    with piece show ?case by simp
  qed
next
  case (piece g t cs c)
  then have "spaced (g @ c @ (t @ t2)) (c # (cs @ cs2))"
    by (intro spaced.piece) simp_all
  then show ?case by simp
qed

lemma trim_parts:
  "\<exists>a b. s = a @ trim s @ b \<and> list_all is_space a \<and> list_all is_space b"
proof -
  let ?d = "dropWhile is_space s"
  have 1: "s = takeWhile is_space s @ ?d" by simp
  have "rev ?d = takeWhile is_space (rev ?d) @ dropWhile is_space (rev ?d)" by simp
  then have "?d = rev (dropWhile is_space (rev ?d)) @ rev (takeWhile is_space (rev ?d))"
    by (metis rev_append rev_rev_ident)
  then have 2: "?d = trim s @ rev (takeWhile is_space (rev ?d))"
    by (simp add: trim_def)
  have a: "list_all is_space (takeWhile is_space s)"
    by (simp add: list_all_iff) (meson set_takeWhileD)
  have b: "list_all is_space (rev (takeWhile is_space (rev ?d)))"
    by (simp add: list_all_iff) (meson set_takeWhileD)
  from 1 2 have "s = takeWhile is_space s @ trim s @ rev (takeWhile is_space (rev ?d))"
    by simp
  with a b show ?thesis by blast
qed

lemma spaced_trim: "spaced s [trim s]"
proof -
  obtain a b where s: "s = a @ trim s @ b" and a: "list_all is_space a" and b: "list_all is_space b"
    using trim_parts by blast
  from b have "spaced b []" by (rule spaced.gap)
  with a have "spaced (a @ trim s @ b) [trim s]" by (rule spaced.piece)
  with s show ?thesis by simp
qed

lemma trim_empty_space: "trim s = [] \<Longrightarrow> list_all is_space s"
  using trim_parts [of s] by auto

lemma chunk_loop_spaced:
  assumes "list_all is_space w"
    and "foldl (chunk_step n) (chunks, w @ c0) ps = (chunks', cur')"
  shows "\<exists>mid t w' c'. chunks' = chunks @ mid
           \<and> c0 @ concat (map (\<lambda>p. ''\<newline>\<newline>'' @ p) ps) = t @ c'
           \<and> cur' = w' @ c' \<and> list_all is_space w' \<and> spaced t mid"
  using assms
proof (induction ps arbitrary: chunks w c0)
  case Nil
  have "spaced [] []" by (simp add: spaced.gap)
  with Nil have "chunks' = chunks @ [] \<and> c0 @ concat (map (\<lambda>p. ''\<newline>\<newline>'' @ p) []) = [] @ c0
      \<and> cur' = w @ c0 \<and> list_all is_space w \<and> spaced [] []"
    by simp
  then show ?case by blast
next
  case (Cons p ps)
  show ?case
  proof (cases "int (length (w @ c0)) + int (length p) > n \<and> length (w @ c0) > 0")
    case True
    then have step: "chunk_step n (chunks, w @ c0) p = (chunks @ [trim c0], p)"
      using Cons.prems(1) by (simp add: chunk_step_def trim_leading)
    with Cons.prems(2) have "foldl (chunk_step n) (chunks @ [trim c0], [] @ p) ps = (chunks', cur')"
      by simp
    from Cons.IH [OF _ this]
    obtain mid t w' c' where ih: "chunks' = (chunks @ [trim c0]) @ mid"
      "p @ concat (map (\<lambda>p. ''\<newline>\<newline>'' @ p) ps) = t @ c'"
      "cur' = w' @ c'" "list_all is_space w'" "spaced t mid"
      by auto
    have nl: "spaced ''\<newline>\<newline>'' []"
      by (rule spaced.gap) (simp add: is_space_def)
    have "spaced (c0 @ ''\<newline>\<newline>'') ([trim c0] @ [])"
      using spaced_trim nl by (rule spaced_append)
    then have "spaced ((c0 @ ''\<newline>\<newline>'') @ t) (([trim c0] @ []) @ mid)"
      using ih(5) by (rule spaced_append)
    then have "spaced (c0 @ ''\<newline>\<newline>'' @ t) (trim c0 # mid)"
      by simp
    moreover have "c0 @ concat (map (\<lambda>p. ''\<newline>\<newline>'' @ p) (p # ps)) = (c0 @ ''\<newline>\<newline>'' @ t) @ c'"
      using ih(2) by simp
    moreover have "chunks' = chunks @ (trim c0 # mid)"
      using ih(1) by simp
    ultimately show ?thesis
      using ih(3,4) by blast
  next
    case False
    then have step: "chunk_step n (chunks, w @ c0) p = (chunks, w @ (c0 @ ''\<newline>\<newline>'' @ p))"
      by (simp add: chunk_step_def)
    with Cons.prems(2) have "foldl (chunk_step n) (chunks, w @ (c0 @ ''\<newline>\<newline>'' @ p)) ps = (chunks', cur')"
      by simp
    from Cons.IH [OF Cons.prems(1) this]
    obtain mid t w' c' where ih: "chunks' = chunks @ mid"
      "(c0 @ ''\<newline>\<newline>'' @ p) @ concat (map (\<lambda>p. ''\<newline>\<newline>'' @ p) ps) = t @ c'"
      "cur' = w' @ c'" "list_all is_space w'" "spaced t mid"
      by auto
    then show ?thesis by auto
  qed
qed

lemma join_paragraphs: "join sep (p # ps) = p @ concat (map (\<lambda>q. sep @ q) ps)"
  by (induction ps arbitrary: p) auto

lemma createChunks_spaced: "spaced text (createChunks text n)"
proof -
  obtain p ps where paras: "split_on ''\<newline>\<newline>'' text = p # ps"
    using split_on_nonempty by (cases "split_on ''\<newline>\<newline>'' text") auto
  have "join ''\<newline>\<newline>'' (split_on ''\<newline>\<newline>'' text) = text"
    by (rule join_split_on) simp
  with paras have whole: "p @ concat (map (\<lambda>q. ''\<newline>\<newline>'' @ q) ps) = text"
    by (simp add: join_paragraphs)
  have first: "chunk_step n ([], []) p = ([], ''\<newline>\<newline>'' @ p)"
    by (simp add: chunk_step_def)
  obtain chunks' cur' where run: "foldl (chunk_step n) ([], ''\<newline>\<newline>'' @ p) ps = (chunks', cur')"
    by fastforce
  have ws: "list_all is_space ''\<newline>\<newline>''"
    by (simp add: is_space_def)
  from chunk_loop_spaced [OF ws run]
  obtain t w' c' where inv: "p @ concat (map (\<lambda>p. ''\<newline>\<newline>'' @ p) ps) = t @ c'"
    "cur' = w' @ c'" "list_all is_space w'" "spaced t chunks'"
    by auto
  have tr: "trim cur' = trim c'"
    using inv(2,3) by (simp add: trim_leading)
  have res: "createChunks text n = (if trim c' \<noteq> [] then chunks' @ [trim c'] else chunks')"
    using paras first run tr by (simp add: createChunks_def)
  show ?thesis
  proof (cases "trim c' = []")
    case True
    then have "spaced c' []" by (intro spaced.gap trim_empty_space)
    with inv(4) have "spaced (t @ c') (chunks' @ [])" by (rule spaced_append)
    with True res inv(1) whole show ?thesis by simp
  next
    case False
    from inv(4) spaced_trim have "spaced (t @ c') (chunks' @ [trim c'])" by (rule spaced_append)
    with False res inv(1) whole show ?thesis by simp
  qed
qed


lemma spaced_content: "spaced t cs \<Longrightarrow> filter (\<lambda>c. \<not> is_space c) t = filter (\<lambda>c. \<not> is_space c) (concat cs)"
proof (induction rule: spaced.induct)
  case (gap g)
  then show ?case by (simp add: list_all_iff)
next
  case (piece g t cs c)
  from piece(1) have "filter (\<lambda>c. \<not> is_space c) g = []"
    by (simp add: list_all_iff)
  with piece(3) show ?case by simp
qed

lemma join_content:
  "list_all is_space sep \<Longrightarrow>
   filter (\<lambda>c. \<not> is_space c) (join sep cs) = filter (\<lambda>c. \<not> is_space c) (concat cs)"
proof (induction sep cs rule: join.induct)
  case (3 sep x y ys)
  from "3.prems" have "filter (\<lambda>c. \<not> is_space c) sep = []"
    by (simp add: list_all_iff)
  with 3 show ?case by simp
qed simp_all

lemma createChunks_empty: "createChunks [] n = []"
  by (simp add: createChunks_def chunk_step_def trim_def is_space_def)

text \<open>
  C5. The text is the returned chunks in their order with white space only before,
  between and after them; so the chunks joined by the paragraph separator have the
  text's characters other than white space, in the same order. The empty text has no
  chunks.
\<close>

theorem createChunks_content:
  "spaced text (createChunks text n)
   \<and> filter (\<lambda>c. \<not> is_space c) (join ''\<newline>\<newline>'' (createChunks text n))
       = filter (\<lambda>c. \<not> is_space c) text
   \<and> createChunks [] n = []"
proof -
  have sp: "spaced text (createChunks text n)"
    by (rule createChunks_spaced)
  have "list_all is_space ''\<newline>\<newline>''"
    by (simp add: is_space_def)
  then have "filter (\<lambda>c. \<not> is_space c) (join ''\<newline>\<newline>'' (createChunks text n))
      = filter (\<lambda>c. \<not> is_space c) (concat (createChunks text n))"
    by (rule join_content)
  also have "\<dots> = filter (\<lambda>c. \<not> is_space c) text"
    using spaced_content [OF sp] by simp
  finally show ?thesis
    using sp createChunks_empty by (intro conjI)
qed

lemma example_text_chunks: "createChunks example_text 4 = [''a'', ''b'', ''c d'']"
  by code_simp

theorem createChunks_content_witness:
  "createChunks example_text 4 = [''a'', ''b'', ''c d'']
   \<and> spaced example_text [''a'', ''b'', ''c d'']
   \<and> filter (\<lambda>c. \<not> is_space c) (join ''\<newline>\<newline>'' [''a'', ''b'', ''c d''])
       = filter (\<lambda>c. \<not> is_space c) example_text"
  using createChunks_content [of example_text 4] by (simp only: example_text_chunks simp_thms)


section \<open>Properties of the formatter\<close>

subsection \<open>Splitting at one character\<close>




subsection \<open>Lines that formatLine leaves alone, and a percentage\<close>

lemma replace_all_id:
  "(\<And>t. suffix t s \<Longrightarrow> mt t = None) \<Longrightarrow> replace_all mt rp pre s = s"
proof (induction s arbitrary: pre)
  case Nil
  then show ?case by simp
next
  case (Cons c cs)
  have "mt (c # cs) = None" by (rule Cons.prems) simp
  moreover have "replace_all mt rp (c # pre) cs = cs"
    by (rule Cons.IH) (simp add: Cons.prems suffix_ConsI)
  ultimately show ?case by simp
qed

lemma suffix_set: "suffix t s \<Longrightarrow> set t \<subseteq> set s"
  by (auto simp: suffix_def)

lemma match_dollar_absent: "CHR ''$'' \<notin> set t \<Longrightarrow> match_dollar t = None"
  by (cases t) (auto simp: match_dollar_def Let_def)

lemma match_percent_absent: "CHR ''%'' \<notin> set t \<Longrightarrow> match_percent t = None"
proof -
  assume a: "CHR ''%'' \<notin> set t"
  have "\<not> prefix ''%'' (drop n t)" for n
  proof
    assume "prefix ''%'' (drop n t)"
    then have "CHR ''%'' \<in> set (drop n t)" by (auto simp: prefix_def)
    with a show False by (meson in_set_dropD)
  qed
  then show ?thesis by (simp add: match_percent_def Let_def)
qed

lemma match_between_absent: "d \<noteq> [] \<Longrightarrow> hd d \<notin> set t \<Longrightarrow> match_between d t = None"
  by (cases d) (auto simp: match_between_def prefix_def)

lemma replace_between_absent:
  assumes "d \<noteq> []" and "hd d \<notin> set s"
  shows "replace_all (match_between d) rp pre s = s"
proof (rule replace_all_id)
  fix t
  assume "suffix t s"
  with assms(2) have "hd d \<notin> set t" using suffix_set by blast
  with assms(1) show "match_between d t = None" by (rule match_between_absent)
qed

lemma replace_dollar_absent:
  "CHR ''$'' \<notin> set s \<Longrightarrow> replace_all match_dollar rp pre s = s"
  by (rule replace_all_id) (meson match_dollar_absent suffix_set subsetD)

lemma replace_percent_absent:
  "CHR ''%'' \<notin> set s \<Longrightarrow> replace_all match_percent rp pre s = s"
  by (rule replace_all_id) (meson match_percent_absent suffix_set subsetD)

lemma replace_bullet_absent: "\<not> prefix ''*'' s \<Longrightarrow> replace_bullet th s = s"
  by (auto simp: replace_bullet_def split: list.splits)

lemma replace_header_absent: "\<not> prefix ''#'' s \<Longrightarrow> replace_header (CHR ''#'' # hs) f s = s"
  by (cases s) (auto simp: replace_header_def match_header_def)

lemma formatLine_plain:
  assumes "CHR ''$'' \<notin> set s" "CHR ''%'' \<notin> set s" "CHR ''*'' \<notin> set s"
    "CHR ''_'' \<notin> set s" "CHR ''#'' \<notin> set s"
  shows "formatLine th s = s"
proof -
  have "\<not> prefix ''*'' s" "\<not> prefix ''#'' s"
    using assms(3,5) by (auto simp: prefix_def)
  then show ?thesis
    using assms
    by (simp add: formatLine_def Let_def replace_dollar_absent replace_percent_absent
        replace_between_absent replace_bullet_absent replace_header_absent)
qed





subsection \<open>The stream renderer\<close>















subsection \<open>Tables\<close>

lemma draw_table_nonempty: "draw_table th rows \<noteq> []"
  by (simp add: draw_table_def Let_def)

lemma md_loop_plain:
  assumes "i < length lines" and "fst (renderTable th lines i) = None"
  shows "md_loop th lines i res = md_loop th lines (Suc i) (res @ formatLine th (lines ! i) @ ''\<newline>'')"
proof -
  obtain e where "renderTable th lines i = (None, e)"
    using assms(2) by (cases "renderTable th lines i") auto
  with assms(1) show ?thesis
    by (subst md_loop.simps) simp
qed

lemma table_first_line:
  assumes "2 \<le> length (table_lines lines i)"
  shows "i < length lines \<and> is_table_line (lines ! i)"
proof -
  from assms obtain l ls where tl: "takeWhile is_table_line (drop i lines) = l # ls"
    by (cases "table_lines lines i") (auto simp: table_lines_def)
  then have d: "drop i lines \<noteq> []" by auto
  then have i: "i < length lines" by simp
  then have "drop i lines = lines ! i # drop (Suc i) lines"
    by (simp add: Cons_nth_drop_Suc)
  with tl have "is_table_line (lines ! i)"
    by (auto split: if_splits)
  with i show ?thesis by simp
qed

lemma md_loop_table:
  assumes "renderTable th lines i = (Some r, e)"
  shows "md_loop th lines i res = md_loop th lines e (res @ r)"
proof -
  from assms have two: "2 \<le> length (table_lines lines i)" and r: "r \<noteq> []"
    by (auto simp: renderTable_def Let_def draw_table_nonempty split: if_splits)
  from table_first_line [OF two] assms r show ?thesis
    by (subst md_loop.simps) simp
qed

lemma renderMarkdown_single:
  assumes "CHR ''\<newline>'' \<notin> set l"
  shows "renderMarkdown th l = formatLine th l @ ''\<newline>''"
proof -
  have sp: "split_on ''\<newline>'' l = [l]"
    using assms by (rule split_char_no_sep)
  have "length (table_lines [l] 0) < 2"
    by (simp add: table_lines_def)
  then have none: "fst (renderTable th [l] 0) = None"
    by (simp add: renderTable_def Let_def)
  have "md_loop th [l] 0 [] = md_loop th [l] (Suc 0) ([] @ formatLine th ([l] ! 0) @ ''\<newline>'')"
    by (rule md_loop_plain) (simp_all add: none)
  also have "\<dots> = formatLine th l @ ''\<newline>''"
    by (subst md_loop.simps) simp
  finally show ?thesis by (simp add: renderMarkdown_def sp)
qed

text \<open>
  C7. A block of fewer than 2 lines that start with \<open>|\<close> is not a table, and neither is a
  block with fewer than 2 rows that have a non-empty cell. The data rows are the non-empty
  rows other than those whose cells are all dashes and colons. With no data row there is
  no table; with at least 2 lines, at least 2 non-empty rows and at least one data row
  there is one, drawn from the data rows, and one data row is enough for it: these three
  conditions are the only ones under which no table is returned.
  Where \<open>renderTable\<close> returns no table, \<open>renderMarkdown\<close> formats the line as a plain
  line and goes on with the next one; where it returns a table, the table is used. A text
  of one line is always rendered as that plain line.
\<close>

theorem renderTable_detection:
  "(length (table_lines lines i) < 2 \<longrightarrow> renderTable th lines i = (None, i))
   \<and> (length (table_rows lines i) < 2 \<longrightarrow> renderTable th lines i = (None, i))
   \<and> table_data lines i = filter (\<lambda>row. \<not> list_all is_separator_cell row) (table_rows lines i)
   \<and> (table_data lines i = [] \<longrightarrow> renderTable th lines i = (None, i))
   \<and> (2 \<le> length (table_lines lines i) \<and> 2 \<le> length (table_rows lines i)
        \<and> table_data lines i \<noteq> [] \<longrightarrow>
        renderTable th lines i
          = (Some (draw_table th (table_data lines i)), i + length (table_lines lines i)))
   \<and> (fst (renderTable th lines i) = None)
       = (length (table_lines lines i) < 2 \<or> length (table_rows lines i) < 2
          \<or> table_data lines i = [])
   \<and> (i < length lines \<and> fst (renderTable th lines i) = None \<longrightarrow>
        md_loop th lines i res
          = md_loop th lines (Suc i) (res @ formatLine th (lines ! i) @ ''\<newline>''))
   \<and> (renderTable th lines i = (Some r, e) \<longrightarrow>
        md_loop th lines i res = md_loop th lines e (res @ r))
   \<and> (CHR ''\<newline>'' \<notin> set l \<longrightarrow> renderMarkdown th l = formatLine th l @ ''\<newline>'')"
proof (intro conjI impI)
  show "table_data lines i = filter (\<lambda>row. \<not> list_all is_separator_cell row) (table_rows lines i)"
    by (simp add: table_data_def)
next
  assume "length (table_lines lines i) < 2"
  then show "renderTable th lines i = (None, i)"
    by (simp add: renderTable_def Let_def)
next
  assume "length (table_rows lines i) < 2"
  then show "renderTable th lines i = (None, i)"
    by (simp add: renderTable_def Let_def)
next
  assume "table_data lines i = []"
  then show "renderTable th lines i = (None, i)"
    by (simp add: renderTable_def Let_def)
next
  show "(fst (renderTable th lines i) = None)
       = (length (table_lines lines i) < 2 \<or> length (table_rows lines i) < 2
          \<or> table_data lines i = [])"
    by (simp add: renderTable_def Let_def)
next
  assume "2 \<le> length (table_lines lines i) \<and> 2 \<le> length (table_rows lines i)
        \<and> table_data lines i \<noteq> []"
  then show "renderTable th lines i
          = (Some (draw_table th (table_data lines i)), i + length (table_lines lines i))"
    by (simp add: renderTable_def Let_def)
next
  assume "i < length lines \<and> fst (renderTable th lines i) = None"
  then show "md_loop th lines i res
          = md_loop th lines (Suc i) (res @ formatLine th (lines ! i) @ ''\<newline>'')"
    using md_loop_plain by blast
next
  assume "renderTable th lines i = (Some r, e)"
  then show "md_loop th lines i res = md_loop th lines e (res @ r)"
    by (rule md_loop_table)
next
  assume "CHR ''\<newline>'' \<notin> set l"
  then show "renderMarkdown th l = formatLine th l @ ''\<newline>''"
    by (rule renderMarkdown_single)
qed

lemma example_table_lines: "table_lines example_table 0 = example_table"
  by code_simp

lemma example_table_rows:
  "table_rows example_table 0 = [[''A'', ''B''], [''---'', ''---''], [''1'', ''2'']]"
  by code_simp

lemma example_table_data: "table_data example_table 0 = [[''A'', ''B''], [''1'', ''2'']]"
  by code_simp

theorem renderTable_detection_witness:
  "2 \<le> length (table_lines example_table 0) \<and> 2 \<le> length (table_rows example_table 0)
   \<and> table_data example_table 0 = [[''A'', ''B''], [''1'', ''2'']]
   \<and> renderTable example_theme example_table 0
       = (Some (draw_table example_theme [[''A'', ''B''], [''1'', ''2'']]), 3)
   \<and> CHR ''\<newline>'' \<notin> set ''| A | B |''
   \<and> renderMarkdown example_theme ''| A | B |'' = formatLine example_theme ''| A | B |'' @ ''\<newline>''
   \<and> formatLine example_theme ''| A | B |'' = ''| A | B |''
   \<and> table_rows example_table 0 = [[''A'', ''B''], [''---'', ''---''], [''1'', ''2'']]
   \<and> length (table_lines blank_first 0) = 2
   \<and> length (table_rows blank_first 0) < 2
   \<and> renderTable example_theme blank_first 0 = (None, 0)"
proof -
  note r = renderTable_detection [of example_table 0 example_theme "[]" "[]" 0 "''| A | B |''"]
  note b = renderTable_detection [of blank_first 0 example_theme "[]" "[]" 0 "[]"]
  have h5: "length (table_lines blank_first 0) = 2"
    by code_simp
  have h6: "length (table_rows blank_first 0) < 2"
    by code_simp
  have c4: "renderTable example_theme blank_first 0 = (None, 0)"
    by (rule b [THEN conjunct2, THEN conjunct1, THEN mp]) (rule h6)
  have h1: "2 \<le> length (table_lines example_table 0)"
    by (simp add: example_table_lines) (simp add: example_table_def)
  have h2: "2 \<le> length (table_rows example_table 0)"
    by (simp add: example_table_rows)
  have h3: "table_data example_table 0 = [[''A'', ''B''], [''1'', ''2'']]"
    by (rule example_table_data)
  have h4: "CHR ''\<newline>'' \<notin> set ''| A | B |''"
    by simp
  have "renderTable example_theme example_table 0
      = (Some (draw_table example_theme (table_data example_table 0)),
         0 + length (table_lines example_table 0))"
    by (rule r [THEN conjunct2, THEN conjunct2, THEN conjunct2, THEN conjunct2, THEN conjunct1,
          THEN mp])
      (simp add: h1 h2 h3)
  then have c1: "renderTable example_theme example_table 0
       = (Some (draw_table example_theme [[''A'', ''B''], [''1'', ''2'']]), 3)"
    by (simp add: h3 example_table_lines) (simp add: example_table_def)
  have c2: "renderMarkdown example_theme ''| A | B |'' = formatLine example_theme ''| A | B |'' @ ''\<newline>''"
    by (rule r [THEN conjunct2, THEN conjunct2, THEN conjunct2, THEN conjunct2, THEN conjunct2,
          THEN conjunct2, THEN conjunct2, THEN conjunct2, THEN mp]) (rule h4)
  have c3: "formatLine example_theme ''| A | B |'' = ''| A | B |''"
    by (rule formatLine_plain) simp_all
  show ?thesis
    using h1 h2 h3 c1 h4 c2 c3 example_table_rows h5 h6 c4 by (intro conjI)
qed

text \<open>A header line and a separator line leave one data row, and the table is drawn.\<close>

theorem header_only_rendered:
  "table_data header_only 0 = [[''A'', ''B'']]
   \<and> length (table_data header_only 0) = 1
   \<and> renderTable example_theme header_only 0
       = (Some (draw_table example_theme [[''A'', ''B'']]), 2)"
  by code_simp

end
